theory Spec2Isabelle
  imports Main
begin

section \<open>The event assembler of go-sse: \<open>Stream\<close>, \<open>Recv\<close> and \<open>Close\<close>\<close>

text \<open>
  The development embeds the event assembler of package \<^verbatim>\<open>sse\<close>: the \<^verbatim>\<open>Stream\<close>
  struct, \<^verbatim>\<open>Recv\<close> with its field loop, \<^verbatim>\<open>buildEvent\<close>, \<^verbatim>\<open>resetState\<close>, \<^verbatim>\<open>Close\<close>
  and the constructor.
  Go strings are byte sequences, so they are \<open>string\<close> (lists of 8-bit \<open>char\<close>) here.
  A Go \<^verbatim>\<open>error\<close> result is an \<open>error option\<close>, \<open>None\<close> being \<^verbatim>\<open>nil\<close>.
\<close>

subsection \<open>Errors, fields and events\<close>

datatype error = EOF | ErrUnexpectedEOF | OtherError string

type_synonym FieldName = string

record Field =
  Name :: FieldName
  Value :: string

record Event =
  LastEventID :: string
  Type :: string
  Data :: string

text \<open>The zero value \<^verbatim>\<open>Event{}\<close>.\<close>

definition Event0 :: Event where
  "Event0 = \<lparr>LastEventID = [], Type = [], Data = []\<rparr>"

text \<open>
  Modelled from the spec: the field-name constants of the tokenizer package
  (\<^verbatim>\<open>parser.FieldNameData\<close> and its siblings), which is not among the sources. The spec
  gives the recognised names as \<^verbatim>\<open>data\<close>, \<^verbatim>\<open>event\<close>, \<^verbatim>\<open>id\<close> and \<^verbatim>\<open>retry\<close>, and the
  dispatch boundary as a field with the empty name.
\<close>

definition FieldNameData :: FieldName where
  "FieldNameData = ''data''"

definition FieldNameEvent :: FieldName where
  "FieldNameEvent = ''event''"

definition FieldNameID :: FieldName where
  "FieldNameID = ''id''"

definition FieldNameRetry :: FieldName where
  "FieldNameRetry = ''retry''"

subsection \<open>The tokenizer, as the assembler sees it\<close>

text \<open>
  Modelled from the spec: the tokenizer \<^verbatim>\<open>parser.Parser\<close>, which is not among the
  sources. The assembler uses two operations of it: \<^verbatim>\<open>Next\<close>, which delivers the next
  field or reports that there is none, and \<^verbatim>\<open>Err\<close>, which is queried after \<^verbatim>\<open>Next\<close>
  has returned false. The spec calls that state terminal, so the tokenizer is the finite
  sequence of fields it still has to deliver (\<open>pending\<close>) and the error it reports once
  they are used up (\<open>terminal\<close>; \<open>None\<close> is \<^verbatim>\<open>nil\<close>). The spec does not describe a
  call of \<^verbatim>\<open>Next\<close> after it has returned false; the model lets it return false again.
  \<open>nexts\<close> counts the calls of \<^verbatim>\<open>Next\<close>, whatever they return, so that a statement can
  say whether the tokenizer was invoked. The model covers byte sources that
  end or fail after finitely many fields; on a source that goes on for ever without
  completing an event, \<^verbatim>\<open>Recv\<close> blocks and returns nothing, and no statement below is
  about such a run.
\<close>

record Parser =
  pending :: "Field list"
  terminal :: "error option"
  nexts :: nat

definition Next :: "Parser \<Rightarrow> Field option \<times> Parser" where
  "Next p =
     (case pending p of
        [] \<Rightarrow> (None, p\<lparr>nexts := Suc (nexts p)\<rparr>)
      | f # fs \<Rightarrow> (Some f, p\<lparr>pending := fs, nexts := Suc (nexts p)\<rparr>))"

definition Err :: "Parser \<Rightarrow> error option" where
  "Err p = (case pending p of [] \<Rightarrow> terminal p | _ # _ \<Rightarrow> None)"



subsection \<open>The byte source's close operation\<close>

text \<open>
  The \<^verbatim>\<open>io.ReadCloser\<close> handed to the constructor. Reading is done by the tokenizer; the
  assembler itself only closes it. \<open>close_calls\<close> counts the invocations of the
  underlying \<^verbatim>\<open>Close\<close>, \<open>close_err\<close> is what that operation returns.
\<close>

record ReadCloser =
  close_calls :: nat
  close_err :: "error option"

definition reader_Close :: "ReadCloser \<Rightarrow> error option \<times> ReadCloser" where
  "reader_Close r = (close_err r, r\<lparr>close_calls := Suc (close_calls r)\<rparr>)"

subsection \<open>Library functions the assembler calls\<close>

text \<open>\<^verbatim>\<open>strings.IndexByte\<close>: the index of the first occurrence of the byte, or \<open>-1\<close>.\<close>

fun IndexByte :: "string \<Rightarrow> char \<Rightarrow> int" where
  "IndexByte [] c = - 1"
| "IndexByte (x # xs) c =
     (if x = c then 0
      else (let i = IndexByte xs c in if i = - 1 then - 1 else i + 1))"

text \<open>
  \<^verbatim>\<open>strconv.ParseInt(s, 10, 64)\<close>: an optional sign, then one or more decimal digits,
  and the value has to fit a signed 64-bit integer. \<open>None\<close> stands for any error
  (syntax or range); the assembler only tests the error against \<^verbatim>\<open>nil\<close>.
\<close>

definition is_digit :: "char \<Rightarrow> bool" where
  "is_digit c = (48 \<le> (of_char c :: int) \<and> (of_char c :: int) \<le> 57)"

definition digits_value :: "string \<Rightarrow> int" where
  "digits_value ds = foldl (\<lambda>n c. 10 * n + ((of_char c :: int) - 48)) 0 ds"

definition ParseInt :: "string \<Rightarrow> int option" where
  "ParseInt s =
     (if s = [] then None
      else
        (let neg = (hd s = CHR ''-'');
             ds = (if hd s = CHR ''+'' \<or> hd s = CHR ''-'' then tl s else s)
         in if ds = [] \<or> \<not> list_all is_digit ds then None
            else
              (let un = digits_value ds
               in if \<not> neg \<and> un \<ge> 2 ^ 63 then None
                  else if neg \<and> un > 2 ^ 63 then None
                  else Some (if neg then - un else un))))"

subsection \<open>The Stream\<close>

record Stream =
  reader :: ReadCloser
  parser :: Parser
  lastEventID :: string
  closed :: bool
  "typ" :: string
  sb :: string
  dirty :: bool

definition newline :: char where
  "newline = CHR 0x0A"

definition buildEvent :: "Stream \<Rightarrow> Event" where
  "buildEvent s =
     (let data = sb s;
          data = (if data \<noteq> [] then butlast data else data)
      in \<lparr>LastEventID = lastEventID s, Type = typ s, Data = data\<rparr>)"

definition resetState :: "Stream \<Rightarrow> Stream" where
  "resetState s = s\<lparr>sb := [], typ := [], dirty := False\<rparr>"

text \<open>
  The \<^verbatim>\<open>for\<close> loop of \<^verbatim>\<open>Recv\<close>. Each round calls \<^verbatim>\<open>Next\<close>; the loop ends when the
  tokenizer has no field left or when a field outside the four recognised names arrives
  while the assembler is dirty. The result is Go's pair of an event and an error.
\<close>

function Recv_loop :: "Stream \<Rightarrow> (Event \<times> error option) \<times> Stream" where
  "Recv_loop s =
     (case Next (parser s) of
        (None, p) \<Rightarrow>
          (let s = s\<lparr>parser := p\<rparr>;
               err = Err p;
               isEOF = (err = Some EOF);
               isUnexpectedEOF = (err = Some ErrUnexpectedEOF)
           in if dirty s \<and> (isEOF \<or> isUnexpectedEOF) then
                (let event = buildEvent s in ((event, None), resetState s))
              else if err \<noteq> None \<and> \<not> isEOF \<and> \<not> isUnexpectedEOF then
                ((Event0, err), s)
              else ((Event0, Some EOF), s))
      | (Some f, p) \<Rightarrow>
          (let s = s\<lparr>parser := p\<rparr>
           in if Name f = FieldNameData then
                Recv_loop (s\<lparr>sb := sb s @ Value f @ [newline], dirty := True\<rparr>)
              else if Name f = FieldNameEvent then
                Recv_loop (s\<lparr>typ := Value f, dirty := True\<rparr>)
              else if Name f = FieldNameID then
                (if IndexByte (Value f) (CHR 0x00) = - 1 then
                   Recv_loop (s\<lparr>lastEventID := Value f, dirty := True\<rparr>)
                 else Recv_loop s)
              else if Name f = FieldNameRetry then
                (if ParseInt (Value f) \<noteq> None then Recv_loop (s\<lparr>dirty := True\<rparr>)
                 else Recv_loop s)
              else if dirty s then
                (let event = buildEvent s in ((event, None), resetState s))
              else Recv_loop s))"
  by pat_completeness auto
termination
  by (relation "measure (\<lambda>s. length (pending (parser s)))")
     (auto simp: Next_def split: list.splits)

declare Recv_loop.simps [simp del]

definition Recv :: "Stream \<Rightarrow> (Event \<times> error option) \<times> Stream" where
  "Recv s = (if closed s then ((Event0, Some EOF), s) else Recv_loop s)"

definition Close :: "Stream \<Rightarrow> error option \<times> Stream" where
  "Close s =
     (if closed s then (None, s)
      else
        (let s = s\<lparr>closed := True\<rparr>;
             (e, r) = reader_Close (reader s)
         in (e, s\<lparr>reader := r\<rparr>)))"

text \<open>
  \<^verbatim>\<open>NewStreamWithConfig\<close>: the configuration only sets the tokenizer's buffer bound, so
  the constructor takes the byte source and the tokenizer made from it. Every other field
  of the struct has its zero value.
\<close>

definition NewStream :: "ReadCloser \<Rightarrow> Parser \<Rightarrow> Stream" where
  "NewStream r p =
     \<lparr>reader = r, parser = p, lastEventID = [], closed = False,
      typ = [], sb = [], dirty = False\<rparr>"

section \<open>Vocabulary for the statements\<close>

text \<open>
  One round of the loop moves the tokenizer on by one field (\<open>tick\<close>) and then, for a
  field with one of the four recognised names, changes the assembler's own state
  (\<open>absorb\<close>). \<open>feed\<close> does this for a run of fields. These functions restate the
  branches of the \<^verbatim>\<open>switch\<close>; the lemmas below prove that \<open>Recv_loop\<close> computes them.
\<close>

definition tick :: "Stream \<Rightarrow> Stream" where
  "tick s = s\<lparr>parser := (parser s)\<lparr>pending := tl (pending (parser s)),
                                      nexts := Suc (nexts (parser s))\<rparr>\<rparr>"

definition recognised :: "FieldName \<Rightarrow> bool" where
  "recognised n =
     (n = FieldNameData \<or> n = FieldNameEvent \<or> n = FieldNameID \<or> n = FieldNameRetry)"

definition absorb :: "Field \<Rightarrow> Stream \<Rightarrow> Stream" where
  "absorb f s =
     (if Name f = FieldNameData then s\<lparr>sb := sb s @ Value f @ [newline], dirty := True\<rparr>
      else if Name f = FieldNameEvent then s\<lparr>typ := Value f, dirty := True\<rparr>
      else if Name f = FieldNameID then
        (if CHR 0x00 \<in> set (Value f) then s else s\<lparr>lastEventID := Value f, dirty := True\<rparr>)
      else if Name f = FieldNameRetry then
        (if ParseInt (Value f) = None then s else s\<lparr>dirty := True\<rparr>)
      else s)"

fun feed :: "Field list \<Rightarrow> Stream \<Rightarrow> Stream" where
  "feed [] s = s"
| "feed (f # fs) s = feed fs (absorb f (tick s))"

text \<open>The state a stream is in after \<open>n\<close> calls of \<open>Recv\<close>.\<close>

fun Recv_n :: "nat \<Rightarrow> Stream \<Rightarrow> Stream" where
  "Recv_n 0 s = s"
| "Recv_n (Suc n) s = Recv_n n (snd (Recv s))"

text \<open>The fields the tokenizer has handed over between two states of one stream.\<close>

definition delivered :: "Stream \<Rightarrow> Stream \<Rightarrow> Field list" where
  "delivered s s' =
     take (length (pending (parser s)) - length (pending (parser s'))) (pending (parser s))"

text \<open>
  The value of the most recent \<^verbatim>\<open>id\<close> field without a null byte among the given
  fields, or \<open>cur\<close> when there is none.
\<close>

fun sticky_id :: "string \<Rightarrow> Field list \<Rightarrow> string" where
  "sticky_id cur [] = cur"
| "sticky_id cur (f # fs) =
     sticky_id (if Name f = FieldNameID \<and> CHR 0x00 \<notin> set (Value f) then Value f else cur) fs"

text \<open>
  The values of the \<^verbatim>\<open>data\<close> fields, in order; the values joined with a newline between
  neighbours; the values each followed by a newline, which is what the buffer holds.
\<close>

definition data_values :: "Field list \<Rightarrow> string list" where
  "data_values fs = map Value (filter (\<lambda>f. Name f = FieldNameData) fs)"

fun join_lines :: "string list \<Rightarrow> string" where
  "join_lines [] = []"
| "join_lines [v] = v"
| "join_lines (v # w # ws) = v @ [newline] @ join_lines (w # ws)"

definition terminated :: "string list \<Rightarrow> string" where
  "terminated vs = concat (map (\<lambda>v. v @ [newline]) vs)"

text \<open>A field other than \<^verbatim>\<open>data\<close> that marks the assembler dirty.\<close>

definition sets_dirty :: "Field \<Rightarrow> bool" where
  "sets_dirty f =
     (Name f = FieldNameEvent
      \<or> (Name f = FieldNameID \<and> CHR 0x00 \<notin> set (Value f))
      \<or> (Name f = FieldNameRetry \<and> ParseInt (Value f) \<noteq> None))"

text \<open>
  What may follow an event block: a field the \<^verbatim>\<open>default\<close> branch takes, or the end of
  the input, clean or unexpected.
\<close>

definition block_end :: "Field list \<Rightarrow> error option \<Rightarrow> bool" where
  "block_end rest t =
     (case rest of
        [] \<Rightarrow> t = Some EOF \<or> t = Some ErrUnexpectedEOF
      | b # _ \<Rightarrow> \<not> recognised (Name b))"

text \<open>
  A run of fields that one call consumes without dispatching: every field outside the
  four recognised names meets an assembler that is not dirty, so the \<^verbatim>\<open>default\<close> branch
  goes round the loop again.
\<close>

fun quiet :: "Field list \<Rightarrow> Stream \<Rightarrow> bool" where
  "quiet [] s = True"
| "quiet (f # fs) s = ((recognised (Name f) \<or> \<not> dirty s) \<and> quiet fs (absorb f (tick s)))"

subsection \<open>Concrete streams\<close>

text \<open>
  The inputs of the repository's tests, as the field sequences the tokenizer makes of
  them, and a few more. The field with the empty name is the blank line.
\<close>

definition rd0 :: ReadCloser where
  "rd0 = \<lparr>close_calls = 0, close_err = None\<rparr>"

definition failing_closer :: ReadCloser where
  "failing_closer = \<lparr>close_calls = 0, close_err = Some (OtherError ''close failed'')\<rparr>"

definition fld :: "string \<Rightarrow> string \<Rightarrow> Field" where
  "fld n v = \<lparr>Name = n, Value = v\<rparr>"

definition fields_then_EOF :: "Field list \<Rightarrow> Parser" where
  "fields_then_EOF fs = \<lparr>pending = fs, terminal = Some EOF, nexts = 0\<rparr>"

definition persistence_input :: "Field list" where
  "persistence_input =
     [fld ''id'' ''1'', fld ''data'' ''First'', fld [] [],
      fld ''data'' ''Second'', fld [] [],
      fld ''id'' ''3'', fld ''data'' ''Third'', fld [] []]"

definition after_second :: Stream where
  "after_second =
     \<lparr>reader = rd0,
      parser = \<lparr>pending = [fld ''id'' ''3'', fld ''data'' ''Third'', fld [] []],
                terminal = Some EOF, nexts = 5\<rparr>,
      lastEventID = ''1'', closed = False, typ = [], sb = [], dirty = False\<rparr>"

definition after_EOF :: Stream where
  "after_EOF =
     \<lparr>reader = rd0, parser = \<lparr>pending = [], terminal = Some EOF, nexts = 1\<rparr>,
      lastEventID = [], closed = False, typ = [], sb = [], dirty = False\<rparr>"

definition multiline_input :: "Field list" where
  "multiline_input =
     [fld ''data'' ''Line 1'', fld ''data'' ''Line 2'', fld ''data'' ''Line 3'', fld [] []]"

definition multiline_event :: Event where
  "multiline_event =
     \<lparr>LastEventID = [], Type = [],
      Data = ''Line 1'' @ [newline] @ ''Line 2'' @ [newline] @ ''Line 3''\<rparr>"

definition after_multiline :: Stream where
  "after_multiline =
     \<lparr>reader = rd0, parser = \<lparr>pending = [], terminal = Some EOF, nexts = 4\<rparr>,
      lastEventID = [], closed = False, typ = [], sb = [], dirty = False\<rparr>"

definition final_event_input :: Parser where
  "final_event_input =
     \<lparr>pending = [fld ''data'' ''Final event''], terminal = Some ErrUnexpectedEOF, nexts = 0\<rparr>"



definition oversized :: Parser where
  "oversized =
     \<lparr>pending = [fld ''data'' ''xxxxxxxx''],
      terminal = Some (OtherError ''buffer limit exceeded''), nexts = 0\<rparr>"

definition null_id_input :: "Field list" where
  "null_id_input = [fld ''id'' (CHR 0x00 # ''invalid''), fld ''data'' ''Test'', fld [] []]"

section \<open>How the loop runs\<close>

subsection \<open>Library functions and record bookkeeping\<close>

lemma IndexByte_nonneg: "IndexByte xs c = - 1 \<or> 0 \<le> IndexByte xs c"
  by (induction xs) (auto simp: Let_def)

lemma IndexByte_absent: "IndexByte xs c = - 1 \<longleftrightarrow> c \<notin> set xs"
proof (induction xs)
  case Nil
  show ?case by simp
next
  case (Cons x xs)
  show ?case using Cons IndexByte_nonneg [of xs c] by (auto simp: Let_def)
qed

lemmas FieldName_defs =
  FieldNameData_def FieldNameEvent_def FieldNameID_def FieldNameRetry_def

lemmas ParseInt_simps = ParseInt_def is_digit_def digits_value_def Let_def

lemma Parser_pending_Nil:
  "pending p = [] \<Longrightarrow> p\<lparr>pending := [], nexts := n\<rparr> = p\<lparr>nexts := n\<rparr>"
  by (cases p) simp

lemma tick_Nil:
  "pending (parser s) = [] \<Longrightarrow>
   tick s = s\<lparr>parser := (parser s)\<lparr>nexts := Suc (nexts (parser s))\<rparr>\<rparr>"
  by (simp add: tick_def Parser_pending_Nil)

lemma parser_tick [simp]:
  "pending (parser (tick s)) = tl (pending (parser s))"
  "terminal (parser (tick s)) = terminal (parser s)"
  "nexts (parser (tick s)) = Suc (nexts (parser s))"
  by (simp_all add: tick_def)

lemma fields_tick [simp]:
  "lastEventID (tick s) = lastEventID s" "typ (tick s) = typ s" "sb (tick s) = sb s"
  "dirty (tick s) = dirty s" "closed (tick s) = closed s" "reader (tick s) = reader s"
  by (simp_all add: tick_def)

lemma buildEvent_tick [simp]: "buildEvent (tick s) = buildEvent s"
  by (simp add: buildEvent_def)

lemma parser_absorb [simp]: "parser (absorb f s) = parser s"
  by (simp add: absorb_def)

lemma closed_absorb [simp]: "closed (absorb f s) = closed s"
  by (simp add: absorb_def)

lemma parser_resetState [simp]: "parser (resetState s) = parser s"
  by (simp add: resetState_def)

lemma lastEventID_resetState [simp]: "lastEventID (resetState s) = lastEventID s"
  by (simp add: resetState_def)

lemma LastEventID_buildEvent [simp]: "LastEventID (buildEvent s) = lastEventID s"
  by (simp add: buildEvent_def Let_def)

lemma Data_buildEvent: "Data (buildEvent s) = butlast (sb s)"
  by (simp add: buildEvent_def Let_def)

lemma lastEventID_absorb:
  "lastEventID (absorb f s) =
     (if Name f = FieldNameID \<and> CHR 0x00 \<notin> set (Value f) then Value f else lastEventID s)"
  by (simp add: absorb_def FieldName_defs)

lemma not_recognised_ID: "\<not> recognised (Name f) \<Longrightarrow> Name f \<noteq> FieldNameID"
  by (auto simp: recognised_def)

lemma not_recognised_Data: "\<not> recognised (Name f) \<Longrightarrow> Name f \<noteq> FieldNameData"
  by (auto simp: recognised_def)

subsection \<open>One round of the loop\<close>

lemma Recv_loop_Nil:
  assumes "pending (parser s) = []"
  shows "Recv_loop s =
     (if dirty s \<and> (terminal (parser s) = Some EOF \<or> terminal (parser s) = Some ErrUnexpectedEOF)
      then ((buildEvent (tick s), None), resetState (tick s))
      else if terminal (parser s) \<noteq> None \<and> terminal (parser s) \<noteq> Some EOF
              \<and> terminal (parser s) \<noteq> Some ErrUnexpectedEOF
      then ((Event0, terminal (parser s)), tick s)
      else ((Event0, Some EOF), tick s))"
  using assms
  by (subst Recv_loop.simps) (simp add: Next_def Err_def tick_Nil Let_def)

lemma Recv_loop_Cons:
  assumes "pending (parser s) = f # fs"
  shows "Recv_loop s =
     (if recognised (Name f) then Recv_loop (absorb f (tick s))
      else if dirty s then ((buildEvent (tick s), None), resetState (tick s))
      else Recv_loop (tick s))"
  using assms
  by (subst Recv_loop.simps)
     (simp add: Next_def tick_def Let_def absorb_def recognised_def IndexByte_absent)

text \<open>The same two facts on explicit records, for running the loop on a given input.\<close>

lemma Recv_loop_Cons_lit:
  "Recv_loop \<lparr>reader = r, parser = \<lparr>pending = f # fs, terminal = t, nexts = n\<rparr>,
      lastEventID = l, closed = c, typ = ty, sb = b, dirty = d\<rparr> =
   (if Name f = FieldNameData then
      Recv_loop \<lparr>reader = r, parser = \<lparr>pending = fs, terminal = t, nexts = Suc n\<rparr>,
        lastEventID = l, closed = c, typ = ty, sb = b @ Value f @ [newline], dirty = True\<rparr>
    else if Name f = FieldNameEvent then
      Recv_loop \<lparr>reader = r, parser = \<lparr>pending = fs, terminal = t, nexts = Suc n\<rparr>,
        lastEventID = l, closed = c, typ = Value f, sb = b, dirty = True\<rparr>
    else if Name f = FieldNameID then
      (if CHR 0x00 \<in> set (Value f) then
         Recv_loop \<lparr>reader = r, parser = \<lparr>pending = fs, terminal = t, nexts = Suc n\<rparr>,
           lastEventID = l, closed = c, typ = ty, sb = b, dirty = d\<rparr>
       else
         Recv_loop \<lparr>reader = r, parser = \<lparr>pending = fs, terminal = t, nexts = Suc n\<rparr>,
           lastEventID = Value f, closed = c, typ = ty, sb = b, dirty = True\<rparr>)
    else if Name f = FieldNameRetry then
      Recv_loop \<lparr>reader = r, parser = \<lparr>pending = fs, terminal = t, nexts = Suc n\<rparr>,
        lastEventID = l, closed = c, typ = ty, sb = b,
        dirty = (d \<or> ParseInt (Value f) \<noteq> None)\<rparr>
    else if d then
      ((\<lparr>LastEventID = l, Type = ty, Data = butlast b\<rparr>, None),
       \<lparr>reader = r, parser = \<lparr>pending = fs, terminal = t, nexts = Suc n\<rparr>,
        lastEventID = l, closed = c, typ = [], sb = [], dirty = False\<rparr>)
    else
      Recv_loop \<lparr>reader = r, parser = \<lparr>pending = fs, terminal = t, nexts = Suc n\<rparr>,
        lastEventID = l, closed = c, typ = ty, sb = b, dirty = d\<rparr>)"
  by (subst Recv_loop.simps)
     (simp add: Next_def Let_def IndexByte_absent buildEvent_def resetState_def)

lemma Recv_loop_Nil_lit:
  "Recv_loop \<lparr>reader = r, parser = \<lparr>pending = [], terminal = t, nexts = n\<rparr>,
      lastEventID = l, closed = c, typ = ty, sb = b, dirty = d\<rparr> =
   (if d \<and> (t = Some EOF \<or> t = Some ErrUnexpectedEOF) then
      ((\<lparr>LastEventID = l, Type = ty, Data = butlast b\<rparr>, None),
       \<lparr>reader = r, parser = \<lparr>pending = [], terminal = t, nexts = Suc n\<rparr>,
        lastEventID = l, closed = c, typ = [], sb = [], dirty = False\<rparr>)
    else
      ((Event0, if t = None \<or> t = Some ErrUnexpectedEOF then Some EOF else t),
       \<lparr>reader = r, parser = \<lparr>pending = [], terminal = t, nexts = Suc n\<rparr>,
        lastEventID = l, closed = c, typ = ty, sb = b, dirty = d\<rparr>))"
  by (subst Recv_loop.simps)
     (auto simp add: Next_def Err_def Let_def buildEvent_def resetState_def)

lemmas run_simps = Recv_def NewStream_def Recv_loop_Nil_lit Recv_loop_Cons_lit
  FieldName_defs fld_def rd0_def newline_def Event0_def fields_then_EOF_def

subsection \<open>A run of recognised fields\<close>

lemma Recv_loop_block:
  "pending (parser s) = blk @ rest \<Longrightarrow> \<forall>f \<in> set blk. recognised (Name f) \<Longrightarrow>
   Recv_loop s = Recv_loop (feed blk s)"
proof (induction blk arbitrary: s)
  case Nil
  show ?case by simp
next
  case (Cons f blk)
  have "Recv_loop s = Recv_loop (absorb f (tick s))"
    using Cons.prems by (simp add: Recv_loop_Cons)
  also have "\<dots> = Recv_loop (feed blk (absorb f (tick s)))"
    using Cons.prems by (intro Cons.IH) simp_all
  finally show ?case by simp
qed

lemma parser_feed:
  "pending (parser (feed blk s)) = drop (length blk) (pending (parser s))
   \<and> terminal (parser (feed blk s)) = terminal (parser s)
   \<and> nexts (parser (feed blk s)) = nexts (parser s) + length blk"
  by (induction blk arbitrary: s) (simp_all add: drop_Suc drop_tl)

lemma closed_feed [simp]: "closed (feed blk s) = closed s"
  by (induction blk arbitrary: s) simp_all

lemma dirty_absorb_mono: "dirty s \<Longrightarrow> dirty (absorb f s)"
  by (simp add: absorb_def)

lemma dirty_feed_mono: "dirty s \<Longrightarrow> dirty (feed blk s)"
  by (induction blk arbitrary: s) (simp_all add: dirty_absorb_mono)

lemma dirty_absorb_sets: "sets_dirty f \<Longrightarrow> dirty (absorb f s)"
  by (auto simp: absorb_def sets_dirty_def FieldName_defs)

lemma dirty_feed_sets: "\<exists>f \<in> set blk. sets_dirty f \<Longrightarrow> dirty (feed blk s)"
proof (induction blk arbitrary: s)
  case Nil
  then show ?case by simp
next
  case (Cons f blk)
  show ?case
  proof (cases "sets_dirty f")
    case True
    then show ?thesis by (simp add: dirty_absorb_sets dirty_feed_mono)
  next
    case False
    with Cons.prems have "\<exists>g \<in> set blk. sets_dirty g" by auto
    then show ?thesis by (simp add: Cons.IH)
  qed
qed

lemma sb_absorb_other: "Name f \<noteq> FieldNameData \<Longrightarrow> sb (absorb f s) = sb s"
  by (simp add: absorb_def)

lemma sb_feed_no_data:
  "\<forall>f \<in> set blk. Name f \<noteq> FieldNameData \<Longrightarrow> sb (feed blk s) = sb s"
  by (induction blk arbitrary: s) (simp_all add: sb_absorb_other)

subsection \<open>A run of fields without a dispatch\<close>

lemma absorb_unrecognised: "\<not> recognised (Name f) \<Longrightarrow> absorb f s = s"
  by (simp add: absorb_def recognised_def)

lemma Recv_loop_quiet:
  "pending (parser s) = blk @ rest \<Longrightarrow> quiet blk s \<Longrightarrow> Recv_loop s = Recv_loop (feed blk s)"
proof (induction blk arbitrary: s)
  case Nil
  show ?case by simp
next
  case (Cons f blk)
  have "Recv_loop s = Recv_loop (absorb f (tick s))"
    using Cons.prems by (auto simp: Recv_loop_Cons absorb_unrecognised)
  also have "\<dots> = Recv_loop (feed blk (absorb f (tick s)))"
    using Cons.prems by (intro Cons.IH) simp_all
  finally show ?case by simp
qed

lemma dirty_absorb:
  "dirty (absorb f s) = (dirty s \<or> Name f = FieldNameData \<or> sets_dirty f)"
  by (auto simp: absorb_def sets_dirty_def FieldName_defs)

lemma dirty_feed:
  "dirty (feed blk s) = (dirty s \<or> (\<exists>f \<in> set blk. Name f = FieldNameData \<or> sets_dirty f))"
  by (induction blk arbitrary: s) (auto simp: dirty_absorb)

text \<open>
  The \<^verbatim>\<open>default\<close> branch: a field whose name is none of the four recognised ones
  dispatches the pending event when the assembler is dirty, and is passed over otherwise.
\<close>

lemma Recv_loop_default_branch:
  assumes "pending (parser s) = f # fs" and "\<not> recognised (Name f)"
  shows "Recv_loop s = (if dirty s then ((buildEvent s, None), resetState (tick s))
                        else Recv_loop (tick s))"
  using assms by (simp add: Recv_loop_Cons)

section \<open>Invariants of a call\<close>

subsection \<open>The last event id\<close>

lemma Recv_loop_sticky:
  "pending (parser s) = fs \<Longrightarrow> Recv_loop s = (r, s') \<Longrightarrow>
   \<exists>c. fs = c @ pending (parser s') \<and> lastEventID s' = sticky_id (lastEventID s) c
       \<and> (snd r = None \<longrightarrow> LastEventID (fst r) = lastEventID s')"
proof (induction fs arbitrary: s)
  case Nil
  then have "pending (parser s') = []" "lastEventID s' = lastEventID s"
    "snd r = None \<longrightarrow> LastEventID (fst r) = lastEventID s'"
    by (auto simp: Recv_loop_Nil split: if_splits)
  then show ?case by (intro exI [of _ "[]"]) simp
next
  case (Cons f fs)
  have tl: "pending (parser (tick s)) = fs" using Cons.prems by simp
  show ?case
  proof (cases "recognised (Name f)")
    case True
    with Cons.prems have run: "Recv_loop (absorb f (tick s)) = (r, s')"
      by (simp add: Recv_loop_Cons)
    have "pending (parser (absorb f (tick s))) = fs"
      using tl by simp
    from Cons.IH [OF this run] obtain c where
      c: "fs = c @ pending (parser s')"
         "lastEventID s' = sticky_id (lastEventID (absorb f (tick s))) c"
         "snd r = None \<longrightarrow> LastEventID (fst r) = lastEventID s'"
      by (elim exE conjE)
    have "lastEventID s' = sticky_id (lastEventID s) (f # c)"
      using c(2) by (simp add: lastEventID_absorb)
    with c(1,3) show ?thesis by (intro exI [of _ "f # c"]) simp
  next
    case False
    show ?thesis
    proof (cases "dirty s")
      case True
      with False Cons.prems
      have r: "r = (buildEvent (tick s), None)" and s': "s' = resetState (tick s)"
        by (simp_all add: Recv_loop_Cons)
      have "pending (parser s') = fs" using s' tl by simp
      moreover have "lastEventID s' = sticky_id (lastEventID s) [f]"
        using s' False by (simp add: not_recognised_ID)
      moreover have "LastEventID (fst r) = lastEventID s'" using r s' by simp
      ultimately show ?thesis by (intro exI [of _ "[f]"]) simp
    next
      case nd: False
      with False Cons.prems have run: "Recv_loop (tick s) = (r, s')"
        by (simp add: Recv_loop_Cons)
      from Cons.IH [OF tl run] obtain c where
        c: "fs = c @ pending (parser s')"
           "lastEventID s' = sticky_id (lastEventID (tick s)) c"
           "snd r = None \<longrightarrow> LastEventID (fst r) = lastEventID s'"
        by (elim exE conjE)
      have "lastEventID s' = sticky_id (lastEventID s) (f # c)"
        using c(2) False by (simp add: not_recognised_ID)
      with c(1,3) show ?thesis by (intro exI [of _ "f # c"]) simp
    qed
  qed
qed

lemma Recv_sticky:
  assumes "Recv s = (r, s')"
  shows "\<exists>c. pending (parser s) = c @ pending (parser s')
       \<and> lastEventID s' = sticky_id (lastEventID s) c
       \<and> (snd r = None \<longrightarrow> LastEventID (fst r) = lastEventID s')"
proof (cases "closed s")
  case True
  with assms have "s' = s" "snd r = Some EOF" by (auto simp: Recv_def)
  then show ?thesis by (intro exI [of _ "[]"]) simp
next
  case False
  with assms have "Recv_loop s = (r, s')" by (simp add: Recv_def)
  from Recv_loop_sticky [OF refl this] show ?thesis .
qed

lemma sticky_id_append: "sticky_id cur (a @ b) = sticky_id (sticky_id cur a) b"
  by (induction a arbitrary: cur) simp_all

lemma Recv_n_sticky:
  "\<exists>c. pending (parser s) = c @ pending (parser (Recv_n n s))
       \<and> lastEventID (Recv_n n s) = sticky_id (lastEventID s) c"
proof (induction n arbitrary: s)
  case 0
  show ?case by (intro exI [of _ "[]"]) simp
next
  case (Suc n)
  obtain r s1 where step: "Recv s = (r, s1)" by (cases "Recv s")
  from Recv_sticky [OF step] obtain c1 where
    c1: "pending (parser s) = c1 @ pending (parser s1)"
        "lastEventID s1 = sticky_id (lastEventID s) c1" by blast
  from Suc.IH [of s1] obtain c2 where
    c2: "pending (parser s1) = c2 @ pending (parser (Recv_n n s1))"
        "lastEventID (Recv_n n s1) = sticky_id (lastEventID s1) c2" by blast
  have "pending (parser s) = (c1 @ c2) @ pending (parser (Recv_n (Suc n) s))"
    using c1(1) c2(1) step by simp
  moreover have "lastEventID (Recv_n (Suc n) s) = sticky_id (lastEventID s) (c1 @ c2)"
    using c1(2) c2(2) step by (simp add: sticky_id_append)
  ultimately show ?case by blast
qed

lemma delivered_prefix:
  "pending (parser s) = c @ pending (parser s') \<Longrightarrow> delivered s s' = c"
  by (simp add: delivered_def)

subsection \<open>The data buffer\<close>

lemma terminated_join: "vs \<noteq> [] \<Longrightarrow> terminated vs = join_lines vs @ [newline]"
  by (induction vs rule: join_lines.induct) (simp_all add: terminated_def)

lemma terminated_append: "terminated (a @ b) = terminated a @ terminated b"
  by (simp add: terminated_def)

lemma data_values_Cons:
  "data_values (f # fs) = (if Name f = FieldNameData then Value f # data_values fs
                           else data_values fs)"
  by (simp add: data_values_def)

lemma sb_absorb:
  "sb (absorb f s) = sb s @ terminated (data_values [f])"
  by (simp add: absorb_def data_values_def terminated_def)

lemma Recv_loop_Data:
  "pending (parser s) = fs \<Longrightarrow> Recv_loop s = ((e, None), s') \<Longrightarrow>
   \<exists>c. fs = c @ pending (parser s') \<and> Data e = butlast (sb s @ terminated (data_values c))"
proof (induction fs arbitrary: s)
  case Nil
  then have "pending (parser s') = []" "Data e = butlast (sb s)"
    by (auto simp: Recv_loop_Nil Data_buildEvent split: if_splits)
  then show ?case by (intro exI [of _ "[]"]) (simp add: data_values_def terminated_def)
next
  case (Cons f fs)
  have tl: "pending (parser (tick s)) = fs" using Cons.prems by simp
  show ?case
  proof (cases "recognised (Name f)")
    case True
    with Cons.prems have run: "Recv_loop (absorb f (tick s)) = ((e, None), s')"
      by (simp add: Recv_loop_Cons)
    have "pending (parser (absorb f (tick s))) = fs" using tl by simp
    from Cons.IH [OF this run] obtain c where
      c: "fs = c @ pending (parser s')"
         "Data e = butlast (sb (absorb f (tick s)) @ terminated (data_values c))"
      by (elim exE conjE)
    have "terminated (data_values (f # c)) = terminated (data_values [f]) @ terminated (data_values c)"
      by (simp add: data_values_def terminated_def)
    then have "Data e = butlast (sb s @ terminated (data_values (f # c)))"
      using c(2) by (simp add: sb_absorb)
    with c(1) show ?thesis by (intro exI [of _ "f # c"]) simp
  next
    case False
    show ?thesis
    proof (cases "dirty s")
      case True
      with False Cons.prems
      have e: "e = buildEvent (tick s)" and s': "s' = resetState (tick s)"
        by (simp_all add: Recv_loop_Cons)
      have "pending (parser s') = fs" using s' tl by simp
      moreover have "Data e = butlast (sb s @ terminated (data_values [f]))"
        using e False
        by (simp add: Data_buildEvent data_values_def terminated_def not_recognised_Data)
      ultimately show ?thesis by (intro exI [of _ "[f]"]) simp
    next
      case nd: False
      with False Cons.prems have run: "Recv_loop (tick s) = ((e, None), s')"
        by (simp add: Recv_loop_Cons)
      from Cons.IH [OF tl run] obtain c where
        c: "fs = c @ pending (parser s')"
           "Data e = butlast (sb (tick s) @ terminated (data_values c))"
        by (elim exE conjE)
      have "Data e = butlast (sb s @ terminated (data_values (f # c)))"
        using c(2) False by (simp add: data_values_Cons not_recognised_Data)
      with c(1) show ?thesis by (intro exI [of _ "f # c"]) simp
    qed
  qed
qed

lemma Recv_loop_reset:
  "pending (parser s) = fs \<Longrightarrow> Recv_loop s = ((e, None), s') \<Longrightarrow>
   sb s' = [] \<and> typ s' = [] \<and> \<not> dirty s'"
proof (induction fs arbitrary: s)
  case Nil
  then show ?case by (auto simp: Recv_loop_Nil resetState_def split: if_splits)
next
  case (Cons f fs)
  have tl: "pending (parser (tick s)) = fs" "pending (parser (absorb f (tick s))) = fs"
    using Cons.prems by simp_all
  show ?case
    using Cons.prems(2) Cons.IH [OF tl(1)] Cons.IH [OF tl(2)]
    by (auto simp: Recv_loop_Cons [OF Cons.prems(1)] resetState_def split: if_splits)
qed

lemma last_join_lines:
  "vs \<noteq> [] \<Longrightarrow> last vs \<noteq> [] \<Longrightarrow>
   join_lines vs \<noteq> [] \<and> last (join_lines vs) = last (last vs)"
  by (induction vs rule: join_lines.induct) simp_all

subsection \<open>Every call on an open stream invokes the tokenizer\<close>

lemma Recv_loop_progress:
  "pending (parser s) = fs \<Longrightarrow>
   closed (snd (Recv_loop s)) = closed s \<and> nexts (parser s) < nexts (parser (snd (Recv_loop s)))"
proof (induction fs arbitrary: s)
  case Nil
  then show ?case by (simp add: Recv_loop_Nil resetState_def)
next
  case (Cons f fs)
  have tl: "pending (parser (tick s)) = fs" "pending (parser (absorb f (tick s))) = fs"
    using Cons.prems by simp_all
  show ?case
    using Cons.IH [OF tl(1)] Cons.IH [OF tl(2)]
    by (auto simp: Recv_loop_Cons [OF Cons.prems] resetState_def)
qed

subsection \<open>The call counter does not influence the result\<close>

lemma Recv_loop_nexts:
  "pending (parser s) = fs \<Longrightarrow>
   fst (Recv_loop (s\<lparr>parser := (parser s)\<lparr>nexts := k\<rparr>\<rparr>)) = fst (Recv_loop s)"
proof (induction fs arbitrary: s k)
  case Nil
  then show ?case by (simp add: Recv_loop_Nil buildEvent_def)
next
  case (Cons f fs)
  let ?t = "s\<lparr>parser := (parser s)\<lparr>nexts := k\<rparr>\<rparr>"
  have tk: "tick ?t = (tick s)\<lparr>parser := (parser (tick s))\<lparr>nexts := Suc k\<rparr>\<rparr>"
    by (simp add: tick_def)
  have ab: "absorb f (tick ?t) = (absorb f (tick s))\<lparr>parser := (parser (absorb f (tick s)))\<lparr>nexts := Suc k\<rparr>\<rparr>"
    by (simp add: tk absorb_def)
  have p1: "pending (parser (tick s)) = fs" using Cons.prems by simp
  have p2: "pending (parser (absorb f (tick s))) = fs" using Cons.prems by simp
  have pt: "pending (parser ?t) = f # fs" using Cons.prems by simp
  show ?case
    using Cons.IH [OF p1, of "Suc k"] Cons.IH [OF p2, of "Suc k"] Cons.prems
    by (simp add: Recv_loop_Cons [OF pt] Recv_loop_Cons [OF Cons.prems] ab)
       (simp add: tk buildEvent_def)
qed

section \<open>The claims\<close>

subsection \<open>C1: the last event id is sticky\<close>

text \<open>
  Claim C1. Take any stream and call \<open>Recv\<close> any number of times. Whenever a call
  returns an event (its error is \<^verbatim>\<open>nil\<close>), the fields delivered since the start are a
  prefix of the tokenizer's fields, and the event's \<open>LastEventID\<close> is the value of the most
  recent \<^verbatim>\<open>id\<close> field among them whose value has no null byte, or the id the stream
  started with when there is none; a new stream starts with the empty string. The stream
  keeps that id afterwards, and \<open>resetState\<close> never changes it, so an event whose block has
  no \<^verbatim>\<open>id\<close> field inherits the id of the event before it.
\<close>

theorem lastEventID_sticky:
  assumes "Recv (Recv_n n s) = ((e, None), s')"
  shows "pending (parser s) = delivered s s' @ pending (parser s')
       \<and> LastEventID e = sticky_id (lastEventID s) (delivered s s')
       \<and> lastEventID s' = LastEventID e
       \<and> lastEventID (resetState t) = lastEventID t
       \<and> lastEventID (NewStream rd p) = []"
proof -
  from Recv_n_sticky [of s n] obtain c1 where
    c1: "pending (parser s) = c1 @ pending (parser (Recv_n n s))"
        "lastEventID (Recv_n n s) = sticky_id (lastEventID s) c1"
    by (elim exE conjE)
  from Recv_sticky [OF assms] obtain c2 where
    c2: "pending (parser (Recv_n n s)) = c2 @ pending (parser s')"
        "lastEventID s' = sticky_id (lastEventID (Recv_n n s)) c2"
        "LastEventID e = lastEventID s'"
    by auto
  have whole: "pending (parser s) = (c1 @ c2) @ pending (parser s')"
    using c1(1) c2(1) by simp
  then have d: "delivered s s' = c1 @ c2" by (rule delivered_prefix)
  have "lastEventID s' = sticky_id (lastEventID s) (c1 @ c2)"
    using c1(2) c2(2) by (simp add: sticky_id_append)
  with whole d c2(3) show ?thesis by (simp add: NewStream_def resetState_def)
qed

text \<open>
  The input of the persistence test: the second event has no \<^verbatim>\<open>id\<close> field of its own
  and carries the id \<^verbatim>\<open>1\<close> of the first.
\<close>

theorem lastEventID_sticky_witness:
  "Recv (Recv_n (Suc 0) (NewStream rd0 (fields_then_EOF persistence_input))) =
     ((\<lparr>LastEventID = ''1'', Type = [], Data = ''Second''\<rparr>, None), after_second)
   \<and> LastEventID \<lparr>LastEventID = ''1'', Type = [], Data = ''Second''\<rparr> =
       sticky_id (lastEventID (NewStream rd0 (fields_then_EOF persistence_input)))
         (delivered (NewStream rd0 (fields_then_EOF persistence_input)) after_second)"
proof -
  have h: "Recv (Recv_n (Suc 0) (NewStream rd0 (fields_then_EOF persistence_input))) =
     ((\<lparr>LastEventID = ''1'', Type = [], Data = ''Second''\<rparr>, None), after_second)"
    by (simp add: run_simps persistence_input_def after_second_def)
  show ?thesis
    using h lastEventID_sticky [OF h, THEN conjunct2, THEN conjunct1] by (rule conjI)
qed

subsection \<open>C2: a retry field and the dirty flag\<close>

text \<open>
  Claim C2 says that a \<^verbatim>\<open>retry\<close> field marks the assembler dirty whether or not its
  value is an integer, so that a block holding only an invalid \<^verbatim>\<open>retry\<close> field still
  yields an event. The code sets the flag under the guard \<^verbatim>\<open>err == nil\<close>. On the input
  below, a single \<^verbatim>\<open>retry: invalid\<close> followed by the end of the input, \<open>Recv\<close> returns
  \<^verbatim>\<open>io.EOF\<close> and no event, and the flag is still false.
\<close>

theorem retry_invalid_counterexample:
  "fst (Recv (NewStream rd0 (fields_then_EOF [fld ''retry'' ''invalid'']))) = (Event0, Some EOF)
   \<and> \<not> dirty (snd (Recv (NewStream rd0 (fields_then_EOF [fld ''retry'' ''invalid'']))))"
  by (simp add: run_simps ParseInt_simps)

text \<open>
  Claim C2 as amended. When the loop takes a \<^verbatim>\<open>retry\<close> field, it goes on with the dirty
  flag set if the value parses as a base-10 64-bit integer, and with the assembler's state
  exactly as it was if the value does not parse.
\<close>

theorem retry_marks_dirty_if_parsed:
  assumes "pending (parser s) = f # fs" and "Name f = FieldNameRetry"
  shows "Recv_loop s =
         Recv_loop (if ParseInt (Value f) \<noteq> None then (tick s)\<lparr>dirty := True\<rparr> else tick s)"
  using assms
  by (simp add: Recv_loop_Cons recognised_def absorb_def FieldName_defs)

theorem retry_marks_dirty_if_parsed_witness:
  "pending (parser (NewStream rd0 (fields_then_EOF [fld ''retry'' ''1000'', fld [] []])))
     = fld ''retry'' ''1000'' # [fld [] []]
   \<and> Name (fld ''retry'' ''1000'') = FieldNameRetry
   \<and> Recv_loop (NewStream rd0 (fields_then_EOF [fld ''retry'' ''1000'', fld [] []])) =
       Recv_loop (if ParseInt (Value (fld ''retry'' ''1000'')) \<noteq> None
                  then (tick (NewStream rd0 (fields_then_EOF [fld ''retry'' ''1000'', fld [] []])))
                         \<lparr>dirty := True\<rparr>
                  else tick (NewStream rd0 (fields_then_EOF [fld ''retry'' ''1000'', fld [] []])))
   \<and> ParseInt (Value (fld ''retry'' ''1000'')) = Some 1000"
proof -
  have h1: "pending (parser (NewStream rd0 (fields_then_EOF [fld ''retry'' ''1000'', fld [] []])))
     = fld ''retry'' ''1000'' # [fld [] []]"
    by (simp add: NewStream_def fields_then_EOF_def)
  have h2: "Name (fld ''retry'' ''1000'') = FieldNameRetry"
    by (simp add: fld_def FieldNameRetry_def)
  have v: "ParseInt (Value (fld ''retry'' ''1000'')) = Some 1000"
    by (simp add: fld_def ParseInt_simps)
  show ?thesis using h1 h2 v retry_marks_dirty_if_parsed [OF h1 h2] by blast
qed

subsection \<open>C3: comments and unrecognised names\<close>


subsection \<open>C4: calls after the end of the stream\<close>

text \<open>
  Claim C4. After \<open>Close\<close>, and after a \<open>Recv\<close> that has returned \<^verbatim>\<open>io.EOF\<close>, every later
  \<open>Recv\<close> must return \<^verbatim>\<open>io.EOF\<close> at once, without invoking the tokenizer. The closed path
  does so: on a closed stream \<open>t\<close>, \<open>Recv\<close> returns \<^verbatim>\<open>io.EOF\<close> and leaves the whole state,
  the tokenizer included, as it is. The other path does not: \<open>Recv\<close> never sets \<open>closed\<close>
  and the struct has no other flag, so after an open stream \<open>s\<close> has returned \<^verbatim>\<open>io.EOF\<close>
  the stream is still open, and the next \<open>Recv\<close> enters the loop and calls \<^verbatim>\<open>Next\<close>
  before it does anything else. The statement says nothing about what that call of
  \<^verbatim>\<open>Next\<close> or the \<open>Recv\<close> around it returns.
\<close>

theorem Recv_after_EOF_calls_Next:
  assumes "closed t" and "\<not> closed s" and "Recv s = ((e, Some EOF), s')"
  shows "Recv t = ((Event0, Some EOF), t)
       \<and> \<not> closed s'
       \<and> nexts (parser s') < nexts (parser (snd (Recv s')))"
proof -
  have "s' = snd (Recv_loop s)" using assms(2,3) by (simp add: Recv_def)
  then have open': "\<not> closed s'" using Recv_loop_progress [OF refl, of s] assms(2) by simp
  then have "Recv s' = Recv_loop s'" by (simp add: Recv_def)
  then have "nexts (parser s') < nexts (parser (snd (Recv s')))"
    using Recv_loop_progress [OF refl, of s'] by simp
  moreover have "Recv t = ((Event0, Some EOF), t)" using assms(1) by (simp add: Recv_def)
  ultimately show ?thesis using open' by simp
qed

text \<open>
  A new stream over the empty input: the first \<open>Recv\<close> returns \<^verbatim>\<open>io.EOF\<close> after one call
  of \<^verbatim>\<open>Next\<close>, the stream stays open, and a second \<open>Recv\<close> calls \<^verbatim>\<open>Next\<close> again.
\<close>

theorem Recv_after_EOF_calls_Next_witness:
  "closed (snd (Close (NewStream rd0 (fields_then_EOF [fld ''data'' ''test'', fld [] []]))))
   \<and> \<not> closed (NewStream rd0 (fields_then_EOF []))
   \<and> Recv (NewStream rd0 (fields_then_EOF [])) = ((Event0, Some EOF), after_EOF)
   \<and> Recv (snd (Close (NewStream rd0 (fields_then_EOF [fld ''data'' ''test'', fld [] []]))))
       = ((Event0, Some EOF),
          snd (Close (NewStream rd0 (fields_then_EOF [fld ''data'' ''test'', fld [] []]))))
   \<and> \<not> closed after_EOF
   \<and> nexts (parser after_EOF) < nexts (parser (snd (Recv after_EOF)))"
proof -
  have h1: "closed (snd (Close (NewStream rd0 (fields_then_EOF [fld ''data'' ''test'', fld [] []]))))"
    by (simp add: Close_def NewStream_def reader_Close_def Let_def)
  have h2: "\<not> closed (NewStream rd0 (fields_then_EOF []))"
    by (simp add: NewStream_def)
  have h3: "Recv (NewStream rd0 (fields_then_EOF [])) = ((Event0, Some EOF), after_EOF)"
    by (simp add: run_simps after_EOF_def)
  show ?thesis
    using h1 h2 h3 Recv_after_EOF_calls_Next [OF h1 h2 h3] by blast
qed

subsection \<open>C5: the data of an event\<close>

text \<open>
  Claim C5 says that the \<^verbatim>\<open>data\<close> values of one event are joined with a single newline
  in arrival order and that the event's \<open>Data\<close> has no trailing newline, one trailing
  newline being trimmed when the event is built. The join holds, and exactly one newline
  is trimmed; but when the last \<^verbatim>\<open>data\<close> field of the event has an empty value (the
  lines \<^verbatim>\<open>data: a\<close> and \<^verbatim>\<open>data:\<close> before the blank line), the buffer ends in two
  newlines and \<open>Data\<close> keeps one of them.
\<close>

theorem Data_trailing_newline_counterexample:
  "Recv (NewStream rd0 (fields_then_EOF [fld ''data'' ''a'', fld ''data'' [], fld [] []])) =
     ((\<lparr>LastEventID = [], Type = [], Data = ''a'' @ [newline]\<rparr>, None),
      \<lparr>reader = rd0, parser = \<lparr>pending = [], terminal = Some EOF, nexts = 3\<rparr>,
       lastEventID = [], closed = False, typ = [], sb = [], dirty = False\<rparr>)"
  by (simp add: run_simps)

text \<open>
  Claim C5 as amended. Let a call of \<open>Recv\<close> start with an empty buffer, as it does on a
  new stream and after every returned event, and let it return an event. Then \<open>Data\<close> is
  the values of the delivered \<^verbatim>\<open>data\<close> fields, in arrival order, joined with a single
  newline; the buffer was \<open>Data\<close> followed by exactly one more newline, the one that is
  trimmed; and \<open>Data\<close> does not end in a newline whenever the last \<^verbatim>\<open>data\<close> value is not
  empty and does not end in a newline itself.
\<close>

theorem Data_joined:
  assumes "sb s = []" and "Recv s = ((e, None), s')"
  shows "Data e = join_lines (data_values (delivered s s'))
       \<and> (data_values (delivered s s') \<noteq> [] \<longrightarrow>
            terminated (data_values (delivered s s')) = Data e @ [newline])
       \<and> (data_values (delivered s s') \<noteq> [] \<and> last (data_values (delivered s s')) \<noteq> []
            \<and> last (last (data_values (delivered s s'))) \<noteq> newline \<longrightarrow>
            Data e \<noteq> [] \<and> last (Data e) \<noteq> newline)
       \<and> sb (NewStream rd p) = [] \<and> sb s' = []"
proof -
  have nc: "\<not> closed s" using assms(2) by (auto simp: Recv_def split: if_splits)
  then have run: "Recv_loop s = ((e, None), s')" using assms(2) by (simp add: Recv_def)
  from Recv_loop_Data [OF refl run] obtain c where
    c: "pending (parser s) = c @ pending (parser s')"
       "Data e = butlast (sb s @ terminated (data_values c))"
    by (elim exE conjE)
  have d: "delivered s s' = c" using c(1) by (rule delivered_prefix)
  have e: "Data e = butlast (terminated (data_values c))" using c(2) assms(1) by simp
  have j: "Data e = join_lines (data_values c)"
  proof (cases "data_values c = []")
    case True
    then show ?thesis using e by (simp add: terminated_def)
  next
    case False
    then show ?thesis using e by (simp add: terminated_join)
  qed
  have t: "data_values c \<noteq> [] \<longrightarrow> terminated (data_values c) = Data e @ [newline]"
    using j by (simp add: terminated_join)
  have l: "data_values c \<noteq> [] \<and> last (data_values c) \<noteq> []
            \<and> last (last (data_values c)) \<noteq> newline \<longrightarrow>
           Data e \<noteq> [] \<and> last (Data e) \<noteq> newline"
    using j last_join_lines [of "data_values c"] by simp
  have r: "sb s' = []" using Recv_loop_reset [OF refl run] by simp
  from j t l r d show ?thesis by (simp add: NewStream_def)
qed

text \<open>The three \<^verbatim>\<open>data\<close> lines of the multi-line test.\<close>

theorem Data_joined_witness:
  "sb (NewStream rd0 (fields_then_EOF multiline_input)) = []
   \<and> Recv (NewStream rd0 (fields_then_EOF multiline_input))
       = ((multiline_event, None), after_multiline)
   \<and> data_values (delivered (NewStream rd0 (fields_then_EOF multiline_input)) after_multiline)
       = [''Line 1'', ''Line 2'', ''Line 3'']
   \<and> Data multiline_event =
       join_lines (data_values (delivered (NewStream rd0 (fields_then_EOF multiline_input))
                                  after_multiline))
   \<and> Data multiline_event \<noteq> [] \<and> last (Data multiline_event) \<noteq> newline"
proof -
  have h1: "sb (NewStream rd0 (fields_then_EOF multiline_input)) = []"
    by (simp add: NewStream_def)
  have h2: "Recv (NewStream rd0 (fields_then_EOF multiline_input))
       = ((multiline_event, None), after_multiline)"
    by (simp add: run_simps multiline_input_def multiline_event_def after_multiline_def)
  have d: "data_values (delivered (NewStream rd0 (fields_then_EOF multiline_input))
                          after_multiline)
       = [''Line 1'', ''Line 2'', ''Line 3'']"
    by (simp add: data_values_def delivered_def NewStream_def fields_then_EOF_def
          multiline_input_def after_multiline_def fld_def FieldNameData_def)
  have h3: "data_values (delivered (NewStream rd0 (fields_then_EOF multiline_input))
                           after_multiline) \<noteq> []
    \<and> last (data_values (delivered (NewStream rd0 (fields_then_EOF multiline_input))
                           after_multiline)) \<noteq> []
    \<and> last (last (data_values (delivered (NewStream rd0 (fields_then_EOF multiline_input))
                           after_multiline))) \<noteq> newline"
    by (simp add: d newline_def)
  show ?thesis
    using h1 h2 d h3 Data_joined [OF h1 h2] by blast
qed

subsection \<open>C6: an id with a null byte\<close>

text \<open>
  Claim C6. When the loop takes an \<^verbatim>\<open>id\<close> field whose value contains a null byte, it
  goes on with \<open>lastEventID\<close>, the pending type, the pending data and the dirty flag
  exactly as they were; only the tokenizer has moved on. The event and error that the
  call finally returns are those it would have returned had the field not been in the
  input.
\<close>

theorem null_id_ignored:
  assumes "pending (parser s) = f # fs" and "Name f = FieldNameID"
    and "CHR 0x00 \<in> set (Value f)"
  shows "Recv_loop s = Recv_loop (tick s)
       \<and> lastEventID (tick s) = lastEventID s \<and> typ (tick s) = typ s
       \<and> sb (tick s) = sb s \<and> dirty (tick s) = dirty s
       \<and> fst (Recv_loop s) = fst (Recv_loop (s\<lparr>parser := (parser s)\<lparr>pending := fs\<rparr>\<rparr>))"
proof -
  have ab: "absorb f (tick s) = tick s"
    using assms(2,3) by (simp add: absorb_def FieldName_defs)
  have step: "Recv_loop s = Recv_loop (tick s)"
    using assms(1,2) by (simp add: Recv_loop_Cons recognised_def ab)
  let ?u = "s\<lparr>parser := (parser s)\<lparr>pending := fs\<rparr>\<rparr>"
  have "tick s = ?u\<lparr>parser := (parser ?u)\<lparr>nexts := Suc (nexts (parser s))\<rparr>\<rparr>"
    using assms(1) by (simp add: tick_def)
  then have "fst (Recv_loop (tick s)) = fst (Recv_loop ?u)"
    using Recv_loop_nexts [of ?u fs "Suc (nexts (parser s))"] by simp
  with step show ?thesis by simp
qed

text \<open>The input of the invalid-id test: the id starts with a null byte.\<close>

theorem null_id_ignored_witness:
  "pending (parser (NewStream rd0 (fields_then_EOF null_id_input)))
     = fld ''id'' (CHR 0x00 # ''invalid'') # [fld ''data'' ''Test'', fld [] []]
   \<and> Name (fld ''id'' (CHR 0x00 # ''invalid'')) = FieldNameID
   \<and> CHR 0x00 \<in> set (Value (fld ''id'' (CHR 0x00 # ''invalid'')))
   \<and> fst (Recv_loop (NewStream rd0 (fields_then_EOF null_id_input)))
     = fst (Recv_loop ((NewStream rd0 (fields_then_EOF null_id_input))
         \<lparr>parser := (parser (NewStream rd0 (fields_then_EOF null_id_input)))
            \<lparr>pending := [fld ''data'' ''Test'', fld [] []]\<rparr>\<rparr>))
   \<and> fst (Recv_loop (NewStream rd0 (fields_then_EOF null_id_input)))
     = (\<lparr>LastEventID = [], Type = [], Data = ''Test''\<rparr>, None)"
proof -
  have h1: "pending (parser (NewStream rd0 (fields_then_EOF null_id_input)))
     = fld ''id'' (CHR 0x00 # ''invalid'') # [fld ''data'' ''Test'', fld [] []]"
    by (simp add: NewStream_def fields_then_EOF_def null_id_input_def)
  have h2: "Name (fld ''id'' (CHR 0x00 # ''invalid'')) = FieldNameID"
    by (simp add: fld_def FieldNameID_def)
  have h3: "CHR 0x00 \<in> set (Value (fld ''id'' (CHR 0x00 # ''invalid'')))"
    by (simp add: fld_def)
  have v: "fst (Recv_loop (NewStream rd0 (fields_then_EOF null_id_input)))
     = (\<lparr>LastEventID = [], Type = [], Data = ''Test''\<rparr>, None)"
    by (simp add: run_simps null_id_input_def)
  show ?thesis
    using h1 h2 h3 v null_id_ignored [OF h1 h2 h3] by blast
qed

subsection \<open>C7: the end of the input\<close>

text \<open>
  Claim C7. Take a call of \<open>Recv\<close> on an open stream, in any state, that consumes all the
  fields \<open>blk\<close> the tokenizer still has without dispatching, and then gets the report of a
  clean or an unexpected end of input. If the assembler is dirty at that point, the call
  returns the event built from the accumulated state with a \<^verbatim>\<open>nil\<close> error and resets the
  state; if it is not dirty, the call returns \<^verbatim>\<open>io.EOF\<close>. The assembler is dirty at that
  point exactly when it was dirty at the start of the call or one of the consumed fields
  is a \<^verbatim>\<open>data\<close> field, an \<^verbatim>\<open>event\<close> field, an \<^verbatim>\<open>id\<close> without a null byte or a \<^verbatim>\<open>retry\<close>
  with an integer value. In particular a new stream over an empty input returns
  \<^verbatim>\<open>io.EOF\<close> at once.
\<close>

theorem end_of_input_flush:
  assumes "\<not> closed s" and "pending (parser s) = blk" and "quiet blk s"
    and "terminal (parser s) = Some EOF \<or> terminal (parser s) = Some ErrUnexpectedEOF"
  shows "Recv s = (if dirty (feed blk s)
                   then ((buildEvent (feed blk s), None), resetState (tick (feed blk s)))
                   else ((Event0, Some EOF), tick (feed blk s)))
       \<and> dirty (feed blk s)
           = (dirty s \<or> (\<exists>f \<in> set blk. Name f = FieldNameData \<or> sets_dirty f))
       \<and> fst (Recv (NewStream rd \<lparr>pending = [], terminal = Some EOF, nexts = k\<rparr>))
           = (Event0, Some EOF)"
proof -
  let ?s = "feed blk s"
  have "Recv s = Recv_loop s" using assms(1) by (simp add: Recv_def)
  also have "\<dots> = Recv_loop ?s"
    using assms(2,3) by (intro Recv_loop_quiet [where rest = "[]"]) simp_all
  finally have run: "Recv s = Recv_loop ?s" .
  have p: "pending (parser ?s) = []" "terminal (parser ?s) = terminal (parser s)"
    using assms(2) by (simp_all add: parser_feed)
  have "Recv_loop ?s = (if dirty ?s then ((buildEvent ?s, None), resetState (tick ?s))
                        else ((Event0, Some EOF), tick ?s))"
    using p assms(4) by (auto simp: Recv_loop_Nil)
  with run have first: "Recv s = (if dirty ?s then ((buildEvent ?s, None), resetState (tick ?s))
                        else ((Event0, Some EOF), tick ?s))" by simp
  have "fst (Recv (NewStream rd \<lparr>pending = [], terminal = Some EOF, nexts = k\<rparr>))
           = (Event0, Some EOF)"
    by (simp add: Recv_def NewStream_def Recv_loop_Nil)
  with first dirty_feed [of blk s] show ?thesis by simp
qed

text \<open>
  The input of the test of an event at the end of the input: the single line
  \<^verbatim>\<open>data: Final event\<close> without a line end. A new stream consumes the field, gets the
  report of an unexpected end and returns the event; the next call returns \<^verbatim>\<open>io.EOF\<close>.
\<close>

theorem end_of_input_flush_witness:
  "\<not> closed (NewStream rd0 final_event_input)
   \<and> pending (parser (NewStream rd0 final_event_input)) = [fld ''data'' ''Final event'']
   \<and> quiet [fld ''data'' ''Final event''] (NewStream rd0 final_event_input)
   \<and> (terminal (parser (NewStream rd0 final_event_input)) = Some EOF
       \<or> terminal (parser (NewStream rd0 final_event_input)) = Some ErrUnexpectedEOF)
   \<and> Recv (NewStream rd0 final_event_input) =
       (if dirty (feed [fld ''data'' ''Final event''] (NewStream rd0 final_event_input))
        then ((buildEvent (feed [fld ''data'' ''Final event''] (NewStream rd0 final_event_input)),
               None),
              resetState (tick (feed [fld ''data'' ''Final event'']
                                  (NewStream rd0 final_event_input))))
        else ((Event0, Some EOF),
              tick (feed [fld ''data'' ''Final event''] (NewStream rd0 final_event_input))))
   \<and> fst (Recv (NewStream rd0 final_event_input))
       = (\<lparr>LastEventID = [], Type = [], Data = ''Final event''\<rparr>, None)
   \<and> fst (Recv (snd (Recv (NewStream rd0 final_event_input)))) = (Event0, Some EOF)"
proof -
  have h1: "\<not> closed (NewStream rd0 final_event_input)"
    by (simp add: NewStream_def)
  have h2: "pending (parser (NewStream rd0 final_event_input)) = [fld ''data'' ''Final event'']"
    by (simp add: NewStream_def final_event_input_def)
  have h3: "quiet [fld ''data'' ''Final event''] (NewStream rd0 final_event_input)"
    by (simp add: recognised_def fld_def FieldName_defs)
  have h4: "terminal (parser (NewStream rd0 final_event_input)) = Some EOF
       \<or> terminal (parser (NewStream rd0 final_event_input)) = Some ErrUnexpectedEOF"
    by (simp add: NewStream_def final_event_input_def)
  have v: "fst (Recv (NewStream rd0 final_event_input))
       = (\<lparr>LastEventID = [], Type = [], Data = ''Final event''\<rparr>, None)"
    by (simp add: run_simps final_event_input_def)
  have w: "fst (Recv (snd (Recv (NewStream rd0 final_event_input)))) = (Event0, Some EOF)"
    by (simp add: run_simps final_event_input_def)
  show ?thesis
    using h1 h2 h3 h4 v w end_of_input_flush [OF h1 h2 h3 h4, THEN conjunct1] by blast
qed

subsection \<open>C8: a hard error of the tokenizer\<close>

text \<open>
  Claim C8. Let the stream be open, let the tokenizer deliver any run of \<^verbatim>\<open>data\<close>,
  \<^verbatim>\<open>event\<close>, \<^verbatim>\<open>id\<close> and \<^verbatim>\<open>retry\<close> fields and then fail with an error that is neither
  the clean nor the unexpected end of input. Then \<open>Recv\<close> returns that error together with
  the zero event, whatever was accumulated and whether or not the assembler is dirty.
\<close>

theorem hard_error_propagates:
  assumes "pending (parser s) = blk" and "\<forall>f \<in> set blk. recognised (Name f)"
    and "terminal (parser s) = Some err" and "err \<noteq> EOF" and "err \<noteq> ErrUnexpectedEOF"
    and "\<not> closed s"
  shows "fst (Recv s) = (Event0, Some err)"
proof -
  have "Recv s = Recv_loop s" using assms(6) by (simp add: Recv_def)
  also have "\<dots> = Recv_loop (feed blk s)"
    using assms(1,2) by (intro Recv_loop_block [where rest = "[]"]) simp_all
  finally have "Recv s = Recv_loop (feed blk s)" .
  moreover have "pending (parser (feed blk s)) = []"
    "terminal (parser (feed blk s)) = Some err"
    using assms(1,3) by (simp_all add: parser_feed)
  ultimately show ?thesis using assms(4,5) by (simp add: Recv_loop_Nil)
qed

theorem hard_error_propagates_witness:
  "pending (parser (NewStream rd0 oversized)) = [fld ''data'' ''xxxxxxxx'']
   \<and> recognised (Name (fld ''data'' ''xxxxxxxx''))
   \<and> terminal (parser (NewStream rd0 oversized)) = Some (OtherError ''buffer limit exceeded'')
   \<and> OtherError ''buffer limit exceeded'' \<noteq> EOF
   \<and> OtherError ''buffer limit exceeded'' \<noteq> ErrUnexpectedEOF
   \<and> \<not> closed (NewStream rd0 oversized)
   \<and> fst (Recv (NewStream rd0 oversized)) = (Event0, Some (OtherError ''buffer limit exceeded''))"
proof -
  have h1: "pending (parser (NewStream rd0 oversized)) = [fld ''data'' ''xxxxxxxx'']"
    by (simp add: NewStream_def oversized_def)
  have r: "recognised (Name (fld ''data'' ''xxxxxxxx''))"
    by (simp add: recognised_def fld_def FieldNameData_def)
  then have h2: "\<forall>f \<in> set [fld ''data'' ''xxxxxxxx'']. recognised (Name f)"
    by simp
  have h3: "terminal (parser (NewStream rd0 oversized)) = Some (OtherError ''buffer limit exceeded'')"
    by (simp add: NewStream_def oversized_def)
  have h4: "OtherError ''buffer limit exceeded'' \<noteq> EOF" by simp
  have h5: "OtherError ''buffer limit exceeded'' \<noteq> ErrUnexpectedEOF" by simp
  have h6: "\<not> closed (NewStream rd0 oversized)" by (simp add: NewStream_def)
  show ?thesis
    using h1 r h3 h4 h5 h6 hard_error_propagates [OF h1 h2 h3 h4 h5 h6] by blast
qed

subsection \<open>C9: closing twice\<close>

text \<open>
  Claim C9. On an open stream the first \<open>Close\<close> calls the byte source's close operation
  once and returns what it returned, error or not, and the stream is closed afterwards in
  either case. A second \<open>Close\<close> returns \<^verbatim>\<open>nil\<close> and changes nothing, so the source is not
  closed again; and \<open>Recv\<close> on the closed stream returns \<^verbatim>\<open>io.EOF\<close> and changes nothing.
  Both leave the stream closed, so the same holds for every later call.
\<close>

theorem Close_idempotent:
  assumes "\<not> closed s"
  shows "fst (Close s) = close_err (reader s)
       \<and> close_calls (reader (snd (Close s))) = Suc (close_calls (reader s))
       \<and> closed (snd (Close s))
       \<and> Close (snd (Close s)) = (None, snd (Close s))
       \<and> Recv (snd (Close s)) = ((Event0, Some EOF), snd (Close s))"
  using assms by (simp add: Close_def reader_Close_def Recv_def Let_def)

text \<open>A byte source whose close operation fails.\<close>

theorem Close_idempotent_witness:
  "\<not> closed (NewStream failing_closer (fields_then_EOF [fld ''data'' ''test'', fld [] []]))
   \<and> close_err (reader (NewStream failing_closer
                          (fields_then_EOF [fld ''data'' ''test'', fld [] []])))
       = Some (OtherError ''close failed'')
   \<and> fst (Close (NewStream failing_closer (fields_then_EOF [fld ''data'' ''test'', fld [] []])))
       = close_err (reader (NewStream failing_closer
                          (fields_then_EOF [fld ''data'' ''test'', fld [] []])))
   \<and> closed (snd (Close (NewStream failing_closer
                          (fields_then_EOF [fld ''data'' ''test'', fld [] []]))))
   \<and> Close (snd (Close (NewStream failing_closer
                          (fields_then_EOF [fld ''data'' ''test'', fld [] []]))))
       = (None, snd (Close (NewStream failing_closer
                          (fields_then_EOF [fld ''data'' ''test'', fld [] []]))))
   \<and> Recv (snd (Close (NewStream failing_closer
                          (fields_then_EOF [fld ''data'' ''test'', fld [] []]))))
       = ((Event0, Some EOF), snd (Close (NewStream failing_closer
                          (fields_then_EOF [fld ''data'' ''test'', fld [] []]))))"
proof -
  have h: "\<not> closed (NewStream failing_closer (fields_then_EOF [fld ''data'' ''test'', fld [] []]))"
    by (simp add: NewStream_def)
  have e: "close_err (reader (NewStream failing_closer
              (fields_then_EOF [fld ''data'' ''test'', fld [] []])))
           = Some (OtherError ''close failed'')"
    by (simp add: NewStream_def failing_closer_def)
  show ?thesis using h e Close_idempotent [OF h] by blast
qed

subsection \<open>C10: a dirty block without data\<close>

text \<open>
  Claim C10. Let an open stream with an empty buffer receive a block of \<^verbatim>\<open>event\<close>,
  \<^verbatim>\<open>id\<close> and \<^verbatim>\<open>retry\<close> fields, without any \<^verbatim>\<open>data\<close> field, in which at least one field
  marks the assembler dirty (an \<^verbatim>\<open>event\<close> field, an \<^verbatim>\<open>id\<close> without a null byte, or a
  \<^verbatim>\<open>retry\<close> with an integer value), and let the block be followed by a dispatch boundary
  or by the end of the input. Then \<open>Recv\<close> returns an event, with a \<^verbatim>\<open>nil\<close> error, and
  the event's \<open>Data\<close> is the empty string.
\<close>

theorem dirty_without_data:
  assumes "sb s = []" and "\<not> closed s" and "pending (parser s) = blk @ rest"
    and "\<forall>f \<in> set blk. recognised (Name f) \<and> Name f \<noteq> FieldNameData"
    and "\<exists>f \<in> set blk. sets_dirty f"
    and "block_end rest (terminal (parser s))"
  shows "snd (fst (Recv s)) = None \<and> Data (fst (fst (Recv s))) = []"
proof -
  let ?s = "feed blk s"
  have "Recv s = Recv_loop s" using assms(2) by (simp add: Recv_def)
  also have "\<dots> = Recv_loop ?s"
    using assms(3,4) by (intro Recv_loop_block [where rest = rest]) simp_all
  finally have run: "Recv s = Recv_loop ?s" .
  have d: "dirty ?s" using assms(5) by (rule dirty_feed_sets)
  have b: "sb ?s = []" using assms(1,4) by (simp add: sb_feed_no_data)
  have p: "pending (parser ?s) = rest" "terminal (parser ?s) = terminal (parser s)"
    using assms(3) by (simp_all add: parser_feed)
  have e: "Data (buildEvent ?s) = []" using b by (simp add: buildEvent_def)
  show ?thesis
  proof (cases rest)
    case Nil
    with assms(6)
    have "terminal (parser s) = Some EOF \<or> terminal (parser s) = Some ErrUnexpectedEOF"
      by (simp add: block_end_def)
    with Nil p d have "Recv_loop ?s = ((buildEvent ?s, None), resetState (tick ?s))"
      by (auto simp: Recv_loop_Nil)
    with run e show ?thesis by simp
  next
    case (Cons x xs)
    with assms(6) have "\<not> recognised (Name x)" by (simp add: block_end_def)
    with Cons p d have "Recv_loop ?s = ((buildEvent ?s, None), resetState (tick ?s))"
      by (simp add: Recv_loop_Cons)
    with run e show ?thesis by simp
  qed
qed

text \<open>A block that holds an \<^verbatim>\<open>id\<close> field only, followed by the blank line.\<close>

theorem dirty_without_data_witness:
  "sb (NewStream rd0 (fields_then_EOF [fld ''id'' ''7'', fld [] []])) = []
   \<and> \<not> closed (NewStream rd0 (fields_then_EOF [fld ''id'' ''7'', fld [] []]))
   \<and> pending (parser (NewStream rd0 (fields_then_EOF [fld ''id'' ''7'', fld [] []])))
       = [fld ''id'' ''7''] @ [fld [] []]
   \<and> recognised (Name (fld ''id'' ''7'')) \<and> Name (fld ''id'' ''7'') \<noteq> FieldNameData
   \<and> sets_dirty (fld ''id'' ''7'')
   \<and> block_end [fld [] []]
        (terminal (parser (NewStream rd0 (fields_then_EOF [fld ''id'' ''7'', fld [] []]))))
   \<and> snd (fst (Recv (NewStream rd0 (fields_then_EOF [fld ''id'' ''7'', fld [] []])))) = None
   \<and> Data (fst (fst (Recv (NewStream rd0 (fields_then_EOF [fld ''id'' ''7'', fld [] []]))))) = []"
proof -
  have h1: "sb (NewStream rd0 (fields_then_EOF [fld ''id'' ''7'', fld [] []])) = []"
    by (simp add: NewStream_def)
  have h2: "\<not> closed (NewStream rd0 (fields_then_EOF [fld ''id'' ''7'', fld [] []]))"
    by (simp add: NewStream_def)
  have h3: "pending (parser (NewStream rd0 (fields_then_EOF [fld ''id'' ''7'', fld [] []])))
       = [fld ''id'' ''7''] @ [fld [] []]"
    by (simp add: NewStream_def fields_then_EOF_def)
  have r: "recognised (Name (fld ''id'' ''7'')) \<and> Name (fld ''id'' ''7'') \<noteq> FieldNameData"
    by (simp add: recognised_def fld_def FieldName_defs)
  then have h4: "\<forall>f \<in> set [fld ''id'' ''7'']. recognised (Name f) \<and> Name f \<noteq> FieldNameData"
    by simp
  have d: "sets_dirty (fld ''id'' ''7'')"
    by (simp add: sets_dirty_def fld_def FieldName_defs)
  then have h5: "\<exists>f \<in> set [fld ''id'' ''7'']. sets_dirty f"
    by simp
  have h6: "block_end [fld [] []]
        (terminal (parser (NewStream rd0 (fields_then_EOF [fld ''id'' ''7'', fld [] []]))))"
    by (simp add: block_end_def recognised_def fld_def FieldName_defs)
  show ?thesis
    using h1 h2 h3 r d h6 dirty_without_data [OF h1 h2 h3 h4 h5 h6] by blast
qed

end
